theory Spec2Isabelle
  imports Main "HOL-Library.Word" "HOL-Library.Sublist"
begin

section \<open>The fixed-size free-list allocator (src/fds/freelist_allocator.hpp)\<close>

text \<open>
  Addresses are natural numbers and \<open>nullptr\<close> is address 0. The allocator keeps its
  cached blocks as a singly linked list threaded through the blocks themselves: the first
  word of a cached block is its \<open>free_list_header.next\<close>. The memory the allocator
  touches is therefore part of the state: \<open>hdr_next\<close> maps the address of a block to the
  pointer stored in its header.

  The system allocator is outside the program. Its answers are inputs of the model
  (\<open>allocate\<close> takes the pointer that \<open>malloc\<close> returns, whatever it is), and the calls made to
  it are recorded, in order, in \<open>sys_calls\<close>.
\<close>

type_synonym ptr = nat

definition nullptr :: ptr where
  "nullptr = 0"

datatype sys_call = Malloc "32 word" ptr | Free ptr

text \<open>
  \<open>m_list_count\<close> is an \<open>int64_t\<close>: a 64-bit word read with \<open>sint\<close>. The metric counters of
  \<open>FreeListAllocatorMetrics\<close> are kept by name; \<open>COUNTER_INCREMENT\<close> and \<open>COUNTER_DECREMENT\<close>
  add to and subtract from the named counter (the configuration in which
  \<open>COUNTER_INCREMENT_IF_ENABLED\<close> is not empty).
\<close>

record FreeListAllocatorImpl =
  m_head :: ptr
  m_list_count :: "64 word"
  hdr_next :: "ptr \<Rightarrow> ptr"
  sys_calls :: "sys_call list"
  counters :: "string \<Rightarrow> int"

definition FreeListAllocatorImpl_new :: FreeListAllocatorImpl where
  "FreeListAllocatorImpl_new =
     \<lparr>m_head = nullptr, m_list_count = 0, hdr_next = (\<lambda>_. nullptr),
      sys_calls = [], counters = (\<lambda>_. 0)\<rparr>"

definition counter_increment ::
  "string \<Rightarrow> int \<Rightarrow> FreeListAllocatorImpl \<Rightarrow> FreeListAllocatorImpl" where
  "counter_increment p v s = s\<lparr>counters := (counters s)(p := counters s p + v)\<rparr>"

definition counter_decrement ::
  "string \<Rightarrow> int \<Rightarrow> FreeListAllocatorImpl \<Rightarrow> FreeListAllocatorImpl" where
  "counter_decrement p v s = s\<lparr>counters := (counters s)(p := counters s p - v)\<rparr>"

definition sys_malloc ::
  "32 word \<Rightarrow> ptr \<Rightarrow> FreeListAllocatorImpl \<Rightarrow> FreeListAllocatorImpl" where
  "sys_malloc n p s = s\<lparr>sys_calls := sys_calls s @ [Malloc n p]\<rparr>"

definition sys_free :: "ptr \<Rightarrow> FreeListAllocatorImpl \<Rightarrow> FreeListAllocatorImpl" where
  "sys_free p s = s\<lparr>sys_calls := sys_calls s @ [Free p]\<rparr>"

text \<open>
  \<open>allocate sys_ret size_needed\<close>: \<open>sys_ret\<close> is what \<open>malloc(size_needed)\<close> returns if it is
  called. The decrement of \<open>m_list_count\<close> is the last statement before the return, outside
  the \<open>if\<close>.
\<close>

definition allocate ::
  "ptr \<Rightarrow> 32 word \<Rightarrow> FreeListAllocatorImpl \<Rightarrow> ptr \<times> FreeListAllocatorImpl" where
  "allocate sys_ret size_needed s =
     (let (p, s1) =
        (if m_head s = nullptr then
           (sys_ret,
            counter_increment ''freelist_alloc_miss'' 1 (sys_malloc size_needed sys_ret s))
         else
           (m_head s,
            counter_decrement ''freelist_cache_size'' (uint size_needed)
              ((counter_increment ''freelist_alloc_hit'' 1 s)
                 \<lparr>m_head := hdr_next s (m_head s)\<rparr>)));
         s2 = counter_increment ''freelist_alloc_size'' (uint size_needed) s1
      in (p, s2\<lparr>m_list_count := m_list_count s2 - 1\<rparr>))"

text \<open>
  \<open>deallocate MaxListCount Size mem size_alloced\<close>: the template arguments come first.
  \<open>MaxListCount\<close> is a \<open>uint16_t\<close> and is compared with the \<open>int64_t\<close> counter after
  promotion (zero extension); \<open>size_alloced\<close> is a \<open>uint32_t\<close> compared with the
  \<open>std::size_t\<close> \<open>Size\<close> (64 bits), again after zero extension.

  On the caching path \<open>hdr->next = m_head\<close> writes through \<open>mem\<close>. There is no null check:
  with \<open>mem = nullptr\<close> the store goes through the null pointer and the call does not
  return. That outcome is the fault \<open>NullDereference\<close>. On the other path \<open>free(mem)\<close>
  accepts any pointer.
\<close>

datatype fault = NullDereference

definition deallocate ::
  "16 word \<Rightarrow> 64 word \<Rightarrow> ptr \<Rightarrow> 32 word \<Rightarrow> FreeListAllocatorImpl
     \<Rightarrow> fault + bool \<times> FreeListAllocatorImpl" where
  "deallocate MaxListCount Size mem size_alloced s =
     (let s0 = counter_decrement ''freelist_alloc_size'' (uint size_alloced) s in
      if ucast size_alloced \<noteq> Size \<or> m_list_count s0 = ucast MaxListCount then
        (let s1 = (if ucast size_alloced \<noteq> Size
                   then counter_increment ''freelist_dealloc_passthru'' 1 s0 else s0);
             s2 = sys_free mem s1
         in Inr (True, counter_increment ''freelist_dealloc'' 1 s2))
      else
        (let s1 = counter_increment ''freelist_cache_size'' (uint size_alloced) s0
         in if mem = nullptr then Inl NullDereference
            else
              (let s2 = s1\<lparr>hdr_next := (hdr_next s1)(mem := m_head s1)\<rparr>;
                   s3 = s2\<lparr>m_head := mem\<rparr>
               in Inr (True, s3\<lparr>m_list_count := m_list_count s3 + 1\<rparr>))))"

text \<open>
  The blocks the free list holds: \<open>free_list nxt p bs\<close> says that following \<open>next\<close> from
  \<open>p\<close> visits exactly the blocks \<open>bs\<close>, in this order, and then reaches \<open>nullptr\<close>.
\<close>

primrec free_list :: "(ptr \<Rightarrow> ptr) \<Rightarrow> ptr \<Rightarrow> ptr list \<Rightarrow> bool" where
  "free_list nxt p [] = (p = nullptr)"
| "free_list nxt p (b # bs) = (p \<noteq> nullptr \<and> p = b \<and> free_list nxt (nxt b) bs)"

definition cached :: "FreeListAllocatorImpl \<Rightarrow> ptr list \<Rightarrow> bool" where
  "cached s bs = free_list (hdr_next s) (m_head s) bs"

text \<open>
  Calls on one allocator, in sequence. A call that faults ends the sequence with its fault.
\<close>

datatype alloc_call = Allocate ptr "32 word" | Deallocate ptr "32 word"

fun alloc_step ::
  "16 word \<Rightarrow> 64 word \<Rightarrow> alloc_call \<Rightarrow> FreeListAllocatorImpl
     \<Rightarrow> fault + FreeListAllocatorImpl" where
  "alloc_step M S (Allocate r n) s = Inr (snd (allocate r n s))"
| "alloc_step M S (Deallocate p n) s =
     (case deallocate M S p n s of Inl f \<Rightarrow> Inl f | Inr (_, s1) \<Rightarrow> Inr s1)"

fun alloc_run ::
  "16 word \<Rightarrow> 64 word \<Rightarrow> alloc_call list \<Rightarrow> FreeListAllocatorImpl
     \<Rightarrow> fault + FreeListAllocatorImpl" where
  "alloc_run M S [] s = Inr s"
| "alloc_run M S (c # cs) s =
     (case alloc_step M S c s of Inl f \<Rightarrow> Inl f | Inr s1 \<Rightarrow> alloc_run M S cs s1)"

text \<open>
  A sequence of calls used below: \<open>MaxListCount + 1\<close> allocations, answered by the system
  allocator with the distinct blocks \<open>1, \<dots>, MaxListCount + 1\<close>, followed by the
  deallocation of each of these blocks.
\<close>

definition overfill_calls :: "16 word \<Rightarrow> 32 word \<Rightarrow> alloc_call list" where
  "overfill_calls M sz =
     map (\<lambda>p. Allocate p sz) [1..<unat M + 2] @ map (\<lambda>p. Deallocate p sz) [1..<unat M + 2]"

section \<open>The asynchronous RPC server (include/grpc_helper/rpc_server.hpp)\<close>

subsection \<open>Data\<close>

datatype ServerState = VOID | INITED | RUNNING | SHUTTING_DOWN | TERMINATED

text \<open>
  A service type \<open>ServiceT\<close> enters the two registration templates only through
  \<open>ServiceT::service_full_name()\<close>, a \<open>const char*\<close>, and through the type of the object
  \<open>new typename ServiceT::AsyncService()\<close> creates. \<open>m_services\<close> is an
  \<open>std::unordered_map< const char*, ::grpc::Service* >\<close>: its keys are addresses, hashed and
  compared as addresses. The characters stored at an address are read by no function of the
  header; where a statement speaks of them they are a memory \<open>ptr \<Rightarrow> string\<close>.
\<close>

record ServiceT =
  service_full_name :: ptr

type_synonym cb = nat
type_synonym type_id = nat

text \<open>
  Modelled from the spec: \<open>RpcStaticInfo\<close> and \<open>RpcData\<close> are declared in rpc_call.hpp, which
  is not part of the sources. The fields of \<open>RpcStaticInfo\<close> are the template arguments and the
  constructor arguments that \<open>register_rpc\<close> passes (the server pointer \<open>this\<close> is left out:
  there is one server): owning service, the three callbacks (the completion callback is optional),
  the index into the registry, the method name and the streaming flag. A Call Lifecycle Object
  (\<open>RpcData\<close>) holds the pointer to its \<open>RpcStaticInfo\<close>, its queue index, its streaming shape and
  its state, one of the four states of the spec.
\<close>

record RpcStaticInfo =
  info_service :: ServiceT
  info_req :: type_id
  info_resp :: type_id
  info_streaming :: bool
  m_svc :: ptr
  m_req_call_cb :: cb
  m_handler_cb :: cb
  m_comp_cb :: "cb option"
  m_rpc_idx :: nat
  m_rpc_name :: string

text \<open>
  Modelled from the spec: the four states of a Call Lifecycle Object (section 4.3); the class
  is in rpc_call.hpp, which is not part of the sources.
\<close>

datatype CallState = AWAITING_CALL | PROCESSING | AWAITING_COMPLETION | DONE

text \<open>
  Modelled from the spec: the Call Lifecycle Object \<open>RpcData\<close> (rpc_call.hpp, not part of the
  sources), with the two arguments \<open>register_rpc\<close> passes to \<open>make\<close>, the streaming template
  argument and the state.
\<close>

record RpcData =
  m_rpc_info :: ptr
  m_queue_idx :: nat
  call_streaming :: bool
  call_state :: CallState

text \<open>
  Modelled from the spec: what a failed assertion macro leaves in the log (sds_logging is not
  part of the sources), one constructor per macro, with the message.
\<close>

datatype log_entry = DebugAssert string | LogmsgAssert string

text \<open>
  What the locked block of \<open>register_rpc\<close> does, in the order in which it does it: a pointer
  appended to the registry, a call object armed on a queue. Each entry carries the value
  \<open>m_rpc_registry_mtx\<close> had at that moment, so that what happened while the mutex was held
  can be read off after the call has returned and released it.
\<close>

datatype registry_event = RegistryAppend ptr bool | CallArmed nat ptr bool

text \<open>
  The server. Objects created with \<open>new\<close> live in three tables, one per class; the address of
  an object is its position in its table, so an address handed out by \<open>new\<close> was never in use
  before. A destroyed call object leaves \<open>None\<close> at its address. \<open>m_rpc_registry\<close> is the
  vector of owning pointers, \<open>m_cqs\<close> the completion queues, each with the tags (addresses of
  call objects) posted to it and waiting for an event. \<open>m_rpc_registry_mtx\<close> is true while
  the mutex is held. The last four fields are what the program leaves outside itself: the
  assertion log, the steps of the registration blocks, and the handler and completion callbacks
  that were invoked.
\<close>

record GrpcServer =
  m_state :: ServerState
  m_num_threads :: nat
  m_builder :: "ptr list"
  m_threads :: "nat list"
  m_cqs :: "ptr list list"
  m_services :: "ptr \<rightharpoonup> ptr"
  m_rpc_registry_mtx :: bool
  m_rpc_registry :: "ptr list"
  svc_heap :: "ServiceT list"
  info_heap :: "RpcStaticInfo list"
  call_heap :: "RpcData option list"
  assert_log :: "log_entry list"
  registry_events :: "registry_event list"
  handler_runs :: "(ptr \<times> nat \<times> bool) list"
  completion_runs :: "(ptr \<times> bool) list"

text \<open>The members as their default initialisers leave them, before the constructor body.\<close>

definition GrpcServer_members :: GrpcServer where
  "GrpcServer_members =
     \<lparr>m_state = VOID, m_num_threads = 0, m_builder = [], m_threads = [], m_cqs = [],
      m_services = Map.empty, m_rpc_registry_mtx = False, m_rpc_registry = [],
      svc_heap = [], info_heap = [], call_heap = [], assert_log = [],
      registry_events = [], handler_runs = [], completion_runs = []\<rparr>"

definition info_at :: "GrpcServer \<Rightarrow> ptr \<Rightarrow> RpcStaticInfo option" where
  "info_at s p = (if p < length (info_heap s) then Some (info_heap s ! p) else None)"

definition call_at :: "GrpcServer \<Rightarrow> ptr \<Rightarrow> RpcData option" where
  "call_at s p = (if p < length (call_heap s) then call_heap s ! p else None)"

subsection \<open>Assertion macros\<close>

text \<open>
  Modelled from the spec: \<open>DEBUG_ASSERT_EQ\<close> and \<open>LOGMSG_ASSERT\<close> come from
  sds_logging/logging.h, which is not part of the sources. The spec describes the first as a
  debug-checked precondition and the second as logging an assertion failure, after which the
  function returns false. Both are modelled as they behave when the process goes on: a failed
  check is recorded in \<open>assert_log\<close> and the function continues with its next statement. A build
  in which a failed assertion stops the process has no return value to speak of.
\<close>

definition DEBUG_ASSERT_EQ ::
  "ServerState \<Rightarrow> ServerState \<Rightarrow> string \<Rightarrow> GrpcServer \<Rightarrow> GrpcServer" where
  "DEBUG_ASSERT_EQ expected actual msg s =
     (if expected = actual then s else s\<lparr>assert_log := assert_log s @ [DebugAssert msg]\<rparr>)"

text \<open>
  Modelled from the spec: \<open>LOGMSG_ASSERT\<close> (sds_logging/logging.h, not part of the sources);
  a false condition is logged and the caller goes on to its \<open>return false\<close>.
\<close>

definition LOGMSG_ASSERT :: "bool \<Rightarrow> string \<Rightarrow> GrpcServer \<Rightarrow> GrpcServer" where
  "LOGMSG_ASSERT cond msg s =
     (if cond then s else s\<lparr>assert_log := assert_log s @ [LogmsgAssert msg]\<rparr>)"

subsection \<open>Object creation\<close>

definition new_AsyncService :: "ServiceT \<Rightarrow> GrpcServer \<Rightarrow> ptr \<times> GrpcServer" where
  "new_AsyncService T s = (length (svc_heap s), s\<lparr>svc_heap := svc_heap s @ [T]\<rparr>)"

definition new_RpcStaticInfo :: "RpcStaticInfo \<Rightarrow> GrpcServer \<Rightarrow> ptr \<times> GrpcServer" where
  "new_RpcStaticInfo info s = (length (info_heap s), s\<lparr>info_heap := info_heap s @ [info]\<rparr>)"

text \<open>
  Modelled from the spec: \<open>RpcData::make\<close> and \<open>enqueue_call_request\<close> (rpc_call.hpp, not in
  the sources). \<open>make\<close> creates a call object for a method and a queue index, with the
  streaming shape of its template argument; a new object is a slot waiting for a call.
  \<open>enqueue_call_request\<close> posts the object to the given completion queue as awaiting the next
  call.
\<close>

definition RpcData_make :: "bool \<Rightarrow> ptr \<Rightarrow> nat \<Rightarrow> GrpcServer \<Rightarrow> ptr \<times> GrpcServer" where
  "RpcData_make streaming info i s =
     (length (call_heap s),
      s\<lparr>call_heap := call_heap s @
           [Some \<lparr>m_rpc_info = info, m_queue_idx = i, call_streaming = streaming,
                  call_state = AWAITING_CALL\<rparr>]\<rparr>)"

text \<open>
  Modelled from the spec: the state field of a call object (rpc_call.hpp, not part of the
  sources) is written in place; a destroyed or unknown object is left alone.
\<close>

definition set_call_state :: "ptr \<Rightarrow> CallState \<Rightarrow> GrpcServer \<Rightarrow> GrpcServer" where
  "set_call_state tag st s =
     (case call_at s tag of
        None \<Rightarrow> s
      | Some c \<Rightarrow> s\<lparr>call_heap := (call_heap s)[tag := Some (c\<lparr>call_state := st\<rparr>)]\<rparr>)"

text \<open>
  Modelled from the spec: a tag posted to a completion queue (grpcpp, not part of the sources)
  waits there, behind the tags posted before it, until the queue delivers its event.
\<close>

definition cq_post :: "nat \<Rightarrow> ptr \<Rightarrow> GrpcServer \<Rightarrow> GrpcServer" where
  "cq_post q tag s =
     (if q < length (m_cqs s) then s\<lparr>m_cqs := (m_cqs s)[q := m_cqs s ! q @ [tag]]\<rparr> else s)"

text \<open>
  Modelled from the spec: \<open>enqueue_call_request\<close> (rpc_call.hpp, not part of the sources)
  posts the object to the queue as awaiting the next call.
\<close>

definition enqueue_call_request :: "ptr \<Rightarrow> nat \<Rightarrow> GrpcServer \<Rightarrow> GrpcServer" where
  "enqueue_call_request tag q s = cq_post q tag (set_call_state tag AWAITING_CALL s)"

subsection \<open>Registration\<close>

text \<open>\<open>std::unordered_map::insert\<close> leaves the map unchanged when the key is present.\<close>

definition map_insert :: "('k \<rightharpoonup> 'v) \<Rightarrow> 'k \<Rightarrow> 'v \<Rightarrow> ('k \<rightharpoonup> 'v)" where
  "map_insert m k v = (case m k of None \<Rightarrow> m(k \<mapsto> v) | Some _ \<Rightarrow> m)"

definition register_async_service :: "ServiceT \<Rightarrow> GrpcServer \<Rightarrow> bool \<times> GrpcServer" where
  "register_async_service T s =
     (let s0 = DEBUG_ASSERT_EQ INITED (m_state s) ''register service in non-INITED state'' s;
          name = service_full_name T
      in if m_services s0 name \<noteq> None then
           (False, LOGMSG_ASSERT False ''Duplicate register async service'' s0)
         else
           (let (svc, s1) = new_AsyncService T s0;
                s2 = s1\<lparr>m_builder := m_builder s1 @ [svc]\<rparr>;
                s3 = s2\<lparr>m_services := map_insert (m_services s2) name svc\<rparr>
            in (True, s3)))"

text \<open>
  The body of the loop \<open>for (auto i = 0u; i < m_cqs.size(); ++i)\<close> of \<open>register_rpc\<close>: the
  pointer is read back from the registry at \<open>rpc_idx\<close>, and the streaming argument of
  \<open>RpcData\<close> is the literal \<open>false\<close>. \<open>note_armed\<close> and \<open>note_append\<close> write the step
  just made, with the state of the mutex, to \<open>registry_events\<close>.
\<close>

definition note_armed :: "nat \<Rightarrow> ptr \<Rightarrow> GrpcServer \<Rightarrow> GrpcServer" where
  "note_armed i tag s =
     s\<lparr>registry_events := registry_events s @ [CallArmed i tag (m_rpc_registry_mtx s)]\<rparr>"

definition note_append :: "ptr \<Rightarrow> GrpcServer \<Rightarrow> GrpcServer" where
  "note_append p s =
     s\<lparr>registry_events := registry_events s @ [RegistryAppend p (m_rpc_registry_mtx s)]\<rparr>"

definition arm_call :: "nat \<Rightarrow> nat \<Rightarrow> GrpcServer \<Rightarrow> GrpcServer" where
  "arm_call rpc_idx i s =
     (let (rpc_call, s1) = RpcData_make False (m_rpc_registry s ! rpc_idx) i s
      in note_armed i rpc_call (enqueue_call_request rpc_call i s1))"

text \<open>
  \<open>std::unique_lock lg(m_rpc_registry_mtx)\<close> and the end of its scope. Calls are taken one at
  a time, so the mutex is free when a call begins.
\<close>

definition mtx_lock :: "GrpcServer \<Rightarrow> GrpcServer" where
  "mtx_lock s = s\<lparr>m_rpc_registry_mtx := True\<rparr>"

definition mtx_unlock :: "GrpcServer \<Rightarrow> GrpcServer" where
  "mtx_unlock s = s\<lparr>m_rpc_registry_mtx := False\<rparr>"

text \<open>
  The block of \<open>register_rpc\<close> that runs while \<open>lg\<close> holds \<open>m_rpc_registry_mtx\<close>. The
  streaming argument of \<open>RpcStaticInfo\<close> is the literal \<open>false\<close>; the template parameter
  \<open>streaming\<close> of \<open>register_rpc\<close> occurs nowhere in its body.
\<close>

definition register_rpc_locked ::
  "ServiceT \<Rightarrow> type_id \<Rightarrow> type_id \<Rightarrow> ptr \<Rightarrow> string \<Rightarrow> cb \<Rightarrow> cb \<Rightarrow> cb option
     \<Rightarrow> GrpcServer \<Rightarrow> GrpcServer" where
  "register_rpc_locked T ReqT RespT svc name request_call_cb rpc_handler done_handler s =
     (let rpc_idx = length (m_rpc_registry s);
          (p, s1) = new_RpcStaticInfo
                      \<lparr>info_service = T, info_req = ReqT, info_resp = RespT,
                       info_streaming = False, m_svc = svc,
                       m_req_call_cb = request_call_cb, m_handler_cb = rpc_handler,
                       m_comp_cb = done_handler, m_rpc_idx = rpc_idx, m_rpc_name = name\<rparr> s;
          s2 = note_append p (s1\<lparr>m_rpc_registry := m_rpc_registry s1 @ [p]\<rparr>)
      in fold (arm_call rpc_idx) [0..<length (m_cqs s2)] s2)"

definition register_rpc ::
  "ServiceT \<Rightarrow> type_id \<Rightarrow> type_id \<Rightarrow> bool \<Rightarrow> string \<Rightarrow> cb \<Rightarrow> cb \<Rightarrow> cb option
     \<Rightarrow> GrpcServer \<Rightarrow> bool \<times> GrpcServer" where
  "register_rpc T ReqT RespT streaming name request_call_cb rpc_handler done_handler s =
     (let s0 = DEBUG_ASSERT_EQ RUNNING (m_state s) ''register service in non-INITED state'' s
      in case m_services s0 (service_full_name T) of
           None \<Rightarrow>
             (False,
              LOGMSG_ASSERT False ''RPC registration attempted before service is registered'' s0)
         | Some svc \<Rightarrow>
             (True,
              mtx_unlock
                (register_rpc_locked T ReqT RespT svc name request_call_cb rpc_handler
                   done_handler (mtx_lock s0))))"

text \<open>Registration calls in sequence, with the value each call returns.\<close>

datatype reg_call =
    RegisterService ServiceT
  | RegisterRpc ServiceT type_id type_id bool string cb cb "cb option"

fun reg_step :: "reg_call \<Rightarrow> GrpcServer \<Rightarrow> bool \<times> GrpcServer" where
  "reg_step (RegisterService T) s = register_async_service T s"
| "reg_step (RegisterRpc T ReqT RespT streaming name rq h d) s =
     register_rpc T ReqT RespT streaming name rq h d s"

fun reg_run :: "reg_call list \<Rightarrow> GrpcServer \<Rightarrow> bool list \<times> GrpcServer" where
  "reg_run [] s = ([], s)"
| "reg_run (c # cs) s =
     (let (r, s1) = reg_step c s; (rs, s2) = reg_run cs s1 in (r # rs, s2))"

text \<open>
  The call object that \<open>register_rpc\<close> creates for the record at \<open>p\<close> on queue \<open>i\<close>, and two
  concrete servers for the examples: one as the constructor leaves it, with two completion queues
  and no service, and one that is running with one service whose name is at address 100.
\<close>

definition armed :: "ptr \<Rightarrow> nat \<Rightarrow> RpcData" where
  "armed p i = \<lparr>m_rpc_info = p, m_queue_idx = i, call_streaming = False,
                 call_state = AWAITING_CALL\<rparr>"

definition inited_server :: GrpcServer where
  "inited_server = GrpcServer_members\<lparr>m_state := INITED, m_num_threads := 2, m_cqs := [[], []]\<rparr>"

definition running_server :: GrpcServer where
  "running_server =
     GrpcServer_members\<lparr>m_state := RUNNING, m_num_threads := 2, m_builder := [0],
       m_threads := [0, 1], m_cqs := [[], []],
       m_services := [100 \<mapsto> 0], svc_heap := [\<lparr>service_full_name = 100\<rparr>]\<rparr>"

subsection \<open>Server lifecycle\<close>

text \<open>\<open>is_terminated\<close> is the one lifecycle function whose body is in the header.\<close>

definition is_terminated :: "GrpcServer \<Rightarrow> bool" where
  "is_terminated s = (m_state s = TERMINATED)"

text \<open>
  Modelled from the spec: the constructor, \<open>run\<close> and \<open>shutdown\<close> are declared in the header
  and defined in a file that is not part of the sources. From section 4.1 of the spec: the
  constructor allocates \<open>thread_count\<close> completion queues and sets the state to \<open>INITED\<close>, and
  fails if the address cannot be bound (\<open>bind_ok\<close> is the transport's answer); \<open>run\<close> is valid
  only in \<open>INITED\<close>, moves to \<open>RUNNING\<close> and starts one worker thread per queue; \<open>shutdown\<close>
  is valid from \<open>RUNNING\<close> and does nothing when the state is already \<open>SHUTTING_DOWN\<close> or
  \<open>TERMINATED\<close>; it sets \<open>SHUTTING_DOWN\<close>, shuts the listener and the queues down, joins
  the worker threads and then sets \<open>TERMINATED\<close>. An operation that is not valid in the
  current state has no defined result: \<open>None\<close>.
\<close>

definition GrpcServer_construct :: "nat \<Rightarrow> bool \<Rightarrow> GrpcServer \<Rightarrow> GrpcServer option" where
  "GrpcServer_construct threads bind_ok s =
     (if m_state s = VOID \<and> bind_ok then
        Some (s\<lparr>m_num_threads := threads, m_cqs := replicate threads [], m_state := INITED\<rparr>)
      else None)"

text \<open>
  Modelled from the spec: \<open>run\<close> is declared in the header, its body is not part of the
  sources. Valid only in \<open>INITED\<close>; moves to \<open>RUNNING\<close> and starts \<open>thread_count\<close> workers.
\<close>

definition run :: "GrpcServer \<Rightarrow> GrpcServer option" where
  "run s =
     (if m_state s = INITED then
        Some (s\<lparr>m_state := RUNNING, m_threads := [0..<m_num_threads s]\<rparr>)
      else None)"

text \<open>
  Modelled from the spec: the first half of \<open>shutdown\<close> (declared in the header, body not
  part of the sources): from \<open>RUNNING\<close> to \<open>SHUTTING_DOWN\<close>; nothing happens when the
  server is already shutting down or terminated.
\<close>

definition shutdown_begin :: "GrpcServer \<Rightarrow> GrpcServer option" where
  "shutdown_begin s =
     (if m_state s = SHUTTING_DOWN \<or> m_state s = TERMINATED then Some s
      else if m_state s = RUNNING then Some (s\<lparr>m_state := SHUTTING_DOWN\<rparr>)
      else None)"

text \<open>
  Modelled from the spec: the second half of \<open>shutdown\<close> (body not part of the sources):
  once all worker threads are joined the state becomes \<open>TERMINATED\<close>.
\<close>

definition join_threads :: "GrpcServer \<Rightarrow> GrpcServer option" where
  "join_threads s =
     (if m_state s = SHUTTING_DOWN then Some (s\<lparr>m_threads := [], m_state := TERMINATED\<rparr>)
      else None)"

text \<open>
  Modelled from the spec: \<open>shutdown\<close> (declared in the header, body not part of the
  sources), the two halves in sequence.
\<close>

definition shutdown :: "GrpcServer \<Rightarrow> GrpcServer option" where
  "shutdown s =
     (if m_state s = SHUTTING_DOWN \<or> m_state s = TERMINATED then Some s
      else case shutdown_begin s of None \<Rightarrow> None | Some s1 \<Rightarrow> join_threads s1)"

text \<open>
  The lifecycle operations of the state machine of the spec, one per arrow, together with the
  two registration functions, which may be called between them.
\<close>

datatype lifecycle_op =
    Construct nat bool
  | Run
  | Shutdown
  | ThreadsJoined
  | Register reg_call

fun lifecycle_step :: "lifecycle_op \<Rightarrow> GrpcServer \<Rightarrow> GrpcServer option" where
  "lifecycle_step (Construct threads bind_ok) s = GrpcServer_construct threads bind_ok s"
| "lifecycle_step Run s = run s"
| "lifecycle_step Shutdown s = shutdown_begin s"
| "lifecycle_step ThreadsJoined s = join_threads s"
| "lifecycle_step (Register c) s = Some (snd (reg_step c s))"

fun lifecycle_run :: "lifecycle_op list \<Rightarrow> GrpcServer \<Rightarrow> GrpcServer option" where
  "lifecycle_run [] s = Some s"
| "lifecycle_run (x # xs) s =
     (case lifecycle_step x s of None \<Rightarrow> None | Some s1 \<Rightarrow> lifecycle_run xs s1)"

text \<open>The order of the enumeration, and the one state that may follow each state.\<close>

fun state_order :: "ServerState \<Rightarrow> nat" where
  "state_order VOID = 0"
| "state_order INITED = 1"
| "state_order RUNNING = 2"
| "state_order SHUTTING_DOWN = 3"
| "state_order TERMINATED = 4"

fun next_state :: "ServerState \<Rightarrow> ServerState option" where
  "next_state VOID = Some INITED"
| "next_state INITED = Some RUNNING"
| "next_state RUNNING = Some SHUTTING_DOWN"
| "next_state SHUTTING_DOWN = Some TERMINATED"
| "next_state TERMINATED = None"

subsection \<open>The call lifecycle and the dispatch loop\<close>

text \<open>
  Modelled from the spec: the state machine of the Call Lifecycle Object (rpc_call.hpp) and the
  body of \<open>handle_rpcs\<close> are not part of the sources. From sections 4.2, 4.3 and 5 of the spec:
  the loop of a worker thread takes the next (tag, ok) pair from its queue and calls \<open>advance\<close>
  on the object the tag names. In \<open>AWAITING_CALL\<close> with \<open>ok\<close> the object moves to
  \<open>PROCESSING\<close>, arms a sibling for the same method and queue, and invokes the handler
  callback, which runs inline on the worker thread; without \<open>ok\<close> it is discarded and no
  callback runs. When the handler finishes, the object moves to \<open>AWAITING_COMPLETION\<close> and a
  completion event is requested from the queue. In \<open>AWAITING_COMPLETION\<close> the object becomes
  \<open>DONE\<close> on either value of \<open>ok\<close>; the completion callback, if there is one, is invoked
  with that value, and the object is destroyed.

  The handler is the instrumented one of the spec's testable properties: on entry it checks
  whether a slot for its method is waiting on its queue, and the answer is recorded in
  \<open>handler_runs\<close>.
\<close>

definition has_awaiting_slot :: "GrpcServer \<Rightarrow> ptr \<Rightarrow> nat \<Rightarrow> bool" where
  "has_awaiting_slot s info q =
     (q < length (m_cqs s) \<and>
      list_ex (\<lambda>tag. case call_at s tag of
                        None \<Rightarrow> False
                      | Some c \<Rightarrow> m_rpc_info c = info \<and> m_queue_idx c = q
                                  \<and> call_state c = AWAITING_CALL)
              (m_cqs s ! q))"

text \<open>
  Modelled from the spec: the handler callback of the method (user code, called from
  rpc_call.hpp, not part of the sources), instrumented to record whether a slot is available
  at its entry.
\<close>

definition invoke_handler :: "ptr \<Rightarrow> GrpcServer \<Rightarrow> GrpcServer" where
  "invoke_handler tag s =
     (case call_at s tag of
        None \<Rightarrow> s
      | Some c \<Rightarrow>
          s\<lparr>handler_runs := handler_runs s @
               [(m_rpc_info c, m_queue_idx c,
                 has_awaiting_slot s (m_rpc_info c) (m_queue_idx c))]\<rparr>)"

text \<open>
  Modelled from the spec: the optional completion callback (called from rpc_call.hpp, not
  part of the sources) is invoked with the outcome when one was supplied at registration.
\<close>

definition invoke_completion :: "ptr \<Rightarrow> bool \<Rightarrow> GrpcServer \<Rightarrow> GrpcServer" where
  "invoke_completion info ok s =
     (case info_at s info of
        None \<Rightarrow> s
      | Some i \<Rightarrow>
          (case m_comp_cb i of
             None \<Rightarrow> s
           | Some _ \<Rightarrow> s\<lparr>completion_runs := completion_runs s @ [(info, ok)]\<rparr>))"

text \<open>
  Modelled from the spec: a call object that is done is destroyed (rpc_call.hpp, not part of
  the sources).
\<close>

definition destroy_call :: "ptr \<Rightarrow> GrpcServer \<Rightarrow> GrpcServer" where
  "destroy_call tag s = s\<lparr>call_heap := (call_heap s)[tag := None]\<rparr>"



text \<open>
  Modelled from the spec: the queue hands a posted tag to its worker (grpcpp completion
  queue, not part of the sources); the tag is no longer waiting in the queue.
\<close>

definition cq_next :: "nat \<Rightarrow> ptr \<Rightarrow> GrpcServer \<Rightarrow> GrpcServer" where
  "cq_next q tag s = s\<lparr>m_cqs := (m_cqs s)[q := remove1 tag (m_cqs s ! q)]\<rparr>"







text \<open>
  Two properties of a server state. \<open>slots_wf\<close>: every tag posted to a queue is the address
  of an object that was created, and an object that still exists was created for the queue it
  is posted to. \<open>all_armed\<close>: every method of the registry has a slot in \<open>AWAITING_CALL\<close>
  posted to every queue.
\<close>

definition slots_wf :: "GrpcServer \<Rightarrow> bool" where
  "slots_wf s =
     list_all (\<lambda>q. list_all (\<lambda>tag. tag < length (call_heap s) \<and>
                         (case call_at s tag of None \<Rightarrow> True | Some c \<Rightarrow> m_queue_idx c = q))
                      (m_cqs s ! q))
       [0..<length (m_cqs s)]"




text \<open>
  Modelled from the spec: the state in which \<open>advance\<close>, as modelled above, enters the handler
  of the object \<open>c\<close> at \<open>tag\<close> when a call has arrived.
\<close>

definition handler_entry :: "ptr \<Rightarrow> RpcData \<Rightarrow> GrpcServer \<Rightarrow> GrpcServer" where
  "handler_entry tag c s =
     enqueue_call_request (length (call_heap s)) (m_queue_idx c)
       (snd (RpcData_make (call_streaming c) (m_rpc_info c) (m_queue_idx c)
          (set_call_state tag PROCESSING s)))"


section \<open>Properties of the allocator\<close>

lemmas fl_defs = allocate_def deallocate_def counter_increment_def counter_decrement_def
  sys_malloc_def sys_free_def

lemma free_list_upd:
  "b \<notin> set bs \<Longrightarrow> free_list (nxt(b := q)) p bs = free_list nxt p bs"
  by (induction bs arbitrary: p) auto

lemma allocate_count: "m_list_count (snd (allocate r n s)) = m_list_count s - 1"
  by (simp add: fl_defs Let_def)

lemma allocate_miss:
  assumes "m_head s = nullptr"
  shows "fst (allocate r n s) = r"
    and "m_head (snd (allocate r n s)) = nullptr"
    and "hdr_next (snd (allocate r n s)) = hdr_next s"
    and "sys_calls (snd (allocate r n s)) = sys_calls s @ [Malloc n r]"
  using assms by (simp_all add: fl_defs Let_def)




lemma deallocate_push:
  assumes "ucast sz = S" "m_list_count s \<noteq> ucast M" "mem \<noteq> nullptr"
  shows "\<exists>s'. deallocate M S mem sz s = Inr (True, s')
           \<and> m_head s' = mem \<and> hdr_next s' = (hdr_next s)(mem := m_head s)
           \<and> m_list_count s' = m_list_count s + 1 \<and> sys_calls s' = sys_calls s"
  using assms by (simp add: fl_defs Let_def)


lemma deallocate_push_step:
  assumes "ucast sz = S" "m_list_count s \<noteq> ucast M" "mem \<noteq> nullptr"
    and "cached s bs" "mem \<notin> set bs"
  shows "\<exists>s'. alloc_step M S (Deallocate mem sz) s = Inr s' \<and> cached s' (mem # bs)
           \<and> m_list_count s' = m_list_count s + 1"
proof -
  from deallocate_push [OF assms(1-3)] obtain s' where
    d: "deallocate M S mem sz s = Inr (True, s')" and h: "m_head s' = mem"
    and n: "hdr_next s' = (hdr_next s)(mem := m_head s)"
    and c: "m_list_count s' = m_list_count s + 1" by blast
  have "cached s' (mem # bs)"
    using assms(3-5) by (simp add: cached_def h n free_list_upd)
  then show ?thesis using d c by simp
qed

lemma run_allocates:
  "m_head s = nullptr \<Longrightarrow>
   \<exists>s'. alloc_run M S (map (\<lambda>p. Allocate p n) ps) s = Inr s'
      \<and> m_head s' = nullptr \<and> hdr_next s' = hdr_next s
      \<and> m_list_count s' = m_list_count s - of_nat (length ps)"
proof (induction ps arbitrary: s)
  case Nil
  then show ?case by simp
next
  case (Cons p ps)
  let ?s1 = "snd (allocate p n s)"
  have h: "m_head ?s1 = nullptr" using Cons.prems by (simp add: allocate_miss)
  from Cons.IH [OF h] obtain s' where
    "alloc_run M S (map (\<lambda>p. Allocate p n) ps) ?s1 = Inr s'" "m_head s' = nullptr"
    "hdr_next s' = hdr_next ?s1" "m_list_count s' = m_list_count ?s1 - of_nat (length ps)"
    by blast
  then show ?case
    using Cons.prems by (simp add: allocate_miss allocate_count algebra_simps)
qed

lemma run_deallocates:
  "\<lbrakk>ucast sz = S; cached s cs; distinct ps; nullptr \<notin> set ps; set ps \<inter> set cs = {};
    \<forall>k < length ps. m_list_count s + of_nat k \<noteq> ucast M\<rbrakk> \<Longrightarrow>
   \<exists>s'. alloc_run M S (map (\<lambda>p. Deallocate p sz) ps) s = Inr s' \<and> cached s' (rev ps @ cs)"
proof (induction ps arbitrary: s cs)
  case Nil
  then show ?case by simp
next
  case (Cons p ps)
  have c0: "m_list_count s \<noteq> ucast M" using Cons.prems(6) by force
  have pn: "p \<noteq> nullptr" and pc: "p \<notin> set cs" using Cons.prems(4,5) by auto
  from deallocate_push_step [OF Cons.prems(1) c0 pn Cons.prems(2) pc] obtain s1 where
    st: "alloc_step M S (Deallocate p sz) s = Inr s1" and c1: "cached s1 (p # cs)"
    and cnt: "m_list_count s1 = m_list_count s + 1" by blast
  have later: "\<forall>k < length ps. m_list_count s1 + of_nat k \<noteq> ucast M"
  proof (intro allI impI)
    fix k assume "k < length ps"
    then have "Suc k < length (p # ps)" by simp
    with Cons.prems(6) have "m_list_count s + of_nat (Suc k) \<noteq> ucast M" by blast
    then show "m_list_count s1 + of_nat k \<noteq> ucast M" by (simp add: cnt algebra_simps)
  qed
  have "\<exists>s'. alloc_run M S (map (\<lambda>p. Deallocate p sz) ps) s1 = Inr s'
          \<and> cached s' (rev ps @ (p # cs))"
    using Cons.prems later by (intro Cons.IH c1) auto
  then show ?case using st by simp
qed

lemma alloc_run_append:
  "alloc_run M S cs s = Inr s1 \<Longrightarrow> alloc_run M S (cs @ ds) s = alloc_run M S ds s1"
  by (induction cs arbitrary: s) (auto split: sum.splits)

lemma counter_never_full_nat:
  assumes "k \<le> n" "n < 2 ^ 16"
  shows "(0 :: 64 word) - of_nat (n + 1) + of_nat k \<noteq> of_nat n"
proof
  assume eq: "(0 :: 64 word) - of_nat (n + 1) + of_nat k = of_nat n"
  have "(of_nat k :: 64 word) = ((0 :: 64 word) - of_nat (n + 1) + of_nat k) + of_nat (n + 1)"
    by simp
  also have "\<dots> = of_nat n + of_nat (n + 1)" by (simp only: eq)
  also have "\<dots> = of_nat (2 * n + 1)" by simp
  finally have w: "(of_nat k :: 64 word) = of_nat (2 * n + 1)" .
  have "k < 2 ^ LENGTH(64)" "2 * n + 1 < 2 ^ LENGTH(64)" using assms by simp_all
  then have "unat (of_nat k :: 64 word) = k" "unat (of_nat (2 * n + 1) :: 64 word) = 2 * n + 1"
    by (simp_all only: of_nat_inverse [OF refl])
  with w have "k = 2 * n + 1" by simp
  then show False using assms by simp
qed

lemma counter_never_full:
  fixes M :: "16 word"
  assumes "k \<le> unat M"
  shows "(0 :: 64 word) - of_nat (unat M + 1) + of_nat k \<noteq> ucast M"
proof -
  have m: "unat M < 2 ^ 16" using unsigned_less [of M, where ?'a = nat] by simp
  have "(of_nat (unat M) :: 64 word) = ucast M" by simp
  with counter_never_full_nat [OF assms m] show ?thesis by (simp only: not_False_eq_True)
qed




text \<open>
  Claim C10. \<open>allocate\<close> lowers \<open>m_list_count\<close> by one on every call, whether the block
  comes from the list or from the system. One allocation on a new allocator leaves the counter
  at \<open>-1\<close> with an empty list, so the counter is negative and is not the number of cached
  blocks. For every \<open>MaxListCount\<close> and every size that fits the block size, the calls of
  \<open>overfill_calls\<close> all return and leave \<open>MaxListCount + 1\<close> blocks in the list.
\<close>

theorem allocate_always_decrements:
  "m_list_count (snd (allocate r n s)) = m_list_count s - 1
   \<and> sint (m_list_count (snd (allocate r n FreeListAllocatorImpl_new))) = - 1
   \<and> cached (snd (allocate r n FreeListAllocatorImpl_new)) []
   \<and> (\<exists>s'. alloc_run M (ucast sz) (overfill_calls M sz) FreeListAllocatorImpl_new = Inr s'
         \<and> cached s' (rev [1..<unat M + 2]))
   \<and> length (rev [1..<unat M + 2]) = unat M + 1"
proof -
  let ?new = FreeListAllocatorImpl_new
  define ps where "ps = [1..<unat M + 2]"
  have len: "length ps = unat M + 1" and dist: "distinct ps" and nonnull: "nullptr \<notin> set ps"
    by (simp_all add: ps_def nullptr_def)
  have n0: "m_head ?new = nullptr" and z0: "m_list_count ?new = 0"
    by (simp_all add: FreeListAllocatorImpl_new_def)
  have neg: "sint (m_list_count (snd (allocate r n ?new))) = - 1"
    by (simp add: allocate_count z0)
  have emp: "cached (snd (allocate r n ?new)) []"
    by (simp add: cached_def allocate_miss [OF n0])
  from run_allocates [OF n0, of M "ucast sz" sz ps] obtain s1 where
    r1: "alloc_run M (ucast sz) (map (\<lambda>p. Allocate p sz) ps) ?new = Inr s1"
    and h1: "m_head s1 = nullptr"
    and c1': "m_list_count s1 = m_list_count ?new - of_nat (length ps)" by blast
  have c1: "m_list_count s1 = 0 - of_nat (unat M + 1)" using c1' by (simp only: len z0)
  have cs1: "cached s1 []" using h1 by (simp add: cached_def)
  have room: "\<forall>k < length ps. m_list_count s1 + of_nat k \<noteq> ucast M"
  proof (intro allI impI)
    fix k assume "k < length ps"
    then have "k \<le> unat M" by (simp add: len)
    from counter_never_full [OF this] show "m_list_count s1 + of_nat k \<noteq> ucast M"
      by (simp only: c1 not_False_eq_True)
  qed
  have ov: "overfill_calls M sz = map (\<lambda>p. Allocate p sz) ps @ map (\<lambda>p. Deallocate p sz) ps"
    by (simp only: overfill_calls_def ps_def)
  have "\<exists>s'. alloc_run M (ucast sz) (map (\<lambda>p. Deallocate p sz) ps) s1 = Inr s'
          \<and> cached s' (rev ps @ [])"
    by (rule run_deallocates [OF refl cs1 dist nonnull _ room]) simp
  then obtain s2 where r2: "alloc_run M (ucast sz) (map (\<lambda>p. Deallocate p sz) ps) s1 = Inr s2"
    and c2: "cached s2 (rev ps)" by auto
  have "alloc_run M (ucast sz) (overfill_calls M sz) ?new = Inr s2"
    by (simp only: ov alloc_run_append [OF r1] r2)
  then have full: "\<exists>s'. alloc_run M (ucast sz) (overfill_calls M sz) ?new = Inr s'
         \<and> cached s' (rev [1..<unat M + 2])"
    using c2 by (auto simp only: ps_def)
  have l: "length (rev [1..<unat M + 2]) = unat M + 1" by simp
  show ?thesis using allocate_count [of r n s] neg emp full l by blast
qed

section \<open>Properties of the registration functions\<close>

lemma arm_call_eq:
  "i < length (m_cqs s) \<Longrightarrow>
   arm_call r i s =
     s\<lparr>call_heap := call_heap s @ [Some (armed (m_rpc_registry s ! r) i)],
       m_cqs := (m_cqs s)[i := m_cqs s ! i @ [length (call_heap s)]],
       registry_events := registry_events s @
          [CallArmed i (length (call_heap s)) (m_rpc_registry_mtx s)]\<rparr>"
  by (simp add: arm_call_def RpcData_make_def enqueue_call_request_def set_call_state_def
      call_at_def cq_post_def armed_def note_armed_def)

lemma arm_loop:
  "n \<le> length (m_cqs s) \<Longrightarrow>
   fold (arm_call r) [0..<n] s =
     s\<lparr>call_heap := call_heap s @ map (\<lambda>i. Some (armed (m_rpc_registry s ! r) i)) [0..<n],
       m_cqs := map (\<lambda>i. if i < n then m_cqs s ! i @ [length (call_heap s) + i] else m_cqs s ! i)
                  [0..<length (m_cqs s)],
       registry_events := registry_events s @
          map (\<lambda>i. CallArmed i (length (call_heap s) + i) (m_rpc_registry_mtx s)) [0..<n]\<rparr>"
proof (induction n)
  case 0
  have "map (\<lambda>i. m_cqs s ! i) [0..<length (m_cqs s)] = m_cqs s" by (rule map_nth)
  then show ?case by simp
next
  case (Suc n)
  let ?f = "\<lambda>i. if i < n then m_cqs s ! i @ [length (call_heap s) + i] else m_cqs s ! i"
  let ?g = "\<lambda>i. if i < Suc n then m_cqs s ! i @ [length (call_heap s) + i] else m_cqs s ! i"
  let ?L = "length (m_cqs s)"
  have n: "n < ?L" using Suc.prems by simp
  have upd: "(map ?f [0..<?L])[n := map ?f [0..<?L] ! n @ [length (call_heap s) + n]] = map ?g [0..<?L]"
    using n by (intro nth_equalityI) (auto simp: nth_list_update)
  show ?case
    using n Suc.IH upd by (simp add: arm_call_eq)
qed

lemma register_rpc_locked_eq:
  "register_rpc_locked T Rq Rs svc name a b c s =
     s\<lparr>info_heap := info_heap s @
          [\<lparr>info_service = T, info_req = Rq, info_resp = Rs, info_streaming = False,
            m_svc = svc, m_req_call_cb = a, m_handler_cb = b, m_comp_cb = c,
            m_rpc_idx = length (m_rpc_registry s), m_rpc_name = name\<rparr>],
       m_rpc_registry := m_rpc_registry s @ [length (info_heap s)],
       call_heap := call_heap s @
          map (\<lambda>i. Some (armed (length (info_heap s)) i)) [0..<length (m_cqs s)],
       m_cqs := map (\<lambda>i. m_cqs s ! i @ [length (call_heap s) + i]) [0..<length (m_cqs s)],
       registry_events := registry_events s @
          RegistryAppend (length (info_heap s)) (m_rpc_registry_mtx s) #
          map (\<lambda>i. CallArmed i (length (call_heap s) + i) (m_rpc_registry_mtx s))
            [0..<length (m_cqs s)]\<rparr>"
proof -
  have m: "map (\<lambda>i. if i < length (m_cqs s) then m_cqs s ! i @ [length (call_heap s) + i]
                     else m_cqs s ! i) [0..<length (m_cqs s)]
           = map (\<lambda>i. m_cqs s ! i @ [length (call_heap s) + i]) [0..<length (m_cqs s)]"
    by (rule map_cong) simp_all
  show ?thesis
    by (simp add: register_rpc_locked_def new_RpcStaticInfo_def note_append_def arm_loop
        Let_def m)
qed

lemma register_rpc_fails:
  assumes "m_services s (service_full_name T) = None"
  shows "register_rpc T Rq Rs st name a b c s =
     (False, s\<lparr>assert_log := assert_log s @
        (if m_state s = RUNNING then []
         else [DebugAssert ''register service in non-INITED state'']) @
        [LogmsgAssert ''RPC registration attempted before service is registered'']\<rparr>)"
  using assms by (simp add: register_rpc_def DEBUG_ASSERT_EQ_def LOGMSG_ASSERT_def)

lemma register_rpc_succeeds:
  assumes "m_services s (service_full_name T) = Some svc"
  shows "register_rpc T Rq Rs st name a b c s =
     (True, mtx_unlock (register_rpc_locked T Rq Rs svc name a b c
        (mtx_lock (DEBUG_ASSERT_EQ RUNNING (m_state s) ''register service in non-INITED state'' s))))"
  using assms by (simp add: register_rpc_def DEBUG_ASSERT_EQ_def)

lemma register_rpc_true_iff:
  "fst (register_rpc T Rq Rs st name a b c s) = (m_services s (service_full_name T) \<noteq> None)"
  by (cases "m_services s (service_full_name T)")
     (simp_all add: register_rpc_fails register_rpc_succeeds)

lemma register_async_service_dup:
  assumes "m_services s (service_full_name T) \<noteq> None"
  shows "register_async_service T s =
     (False, s\<lparr>assert_log := assert_log s @
        (if m_state s = INITED then []
         else [DebugAssert ''register service in non-INITED state'']) @
        [LogmsgAssert ''Duplicate register async service'']\<rparr>)"
  using assms
  by (auto simp add: register_async_service_def DEBUG_ASSERT_EQ_def LOGMSG_ASSERT_def Let_def)

lemma register_async_service_new:
  assumes "m_services s (service_full_name T) = None"
  shows "register_async_service T s =
     (True, s\<lparr>assert_log := assert_log s @
                (if m_state s = INITED then []
                 else [DebugAssert ''register service in non-INITED state'']),
              svc_heap := svc_heap s @ [T],
              m_builder := m_builder s @ [length (svc_heap s)],
              m_services := (m_services s)(service_full_name T \<mapsto> length (svc_heap s))\<rparr>)"
  using assms
  by (simp add: register_async_service_def DEBUG_ASSERT_EQ_def new_AsyncService_def
      map_insert_def Let_def)

lemma running_server_simps:
  "m_state running_server = RUNNING" "m_cqs running_server = [[], []]"
  "m_services running_server = [100 \<mapsto> 0]" "info_heap running_server = []"
  "call_heap running_server = []" "m_rpc_registry running_server = []"
  "assert_log running_server = []" "registry_events running_server = []"
  by (simp_all add: running_server_def GrpcServer_members_def)

lemma reg_run_services:
  "distinct (map service_full_name Ts) \<Longrightarrow>
   \<forall>T \<in> set Ts. m_services s (service_full_name T) = None \<Longrightarrow>
   fst (reg_run (map RegisterService Ts) s) = replicate (length Ts) True"
proof (induction Ts arbitrary: s)
  case Nil
  then show ?case by simp
next
  case (Cons T Ts)
  have absent: "m_services s (service_full_name T) = None" using Cons.prems(2) by simp
  let ?s1 = "snd (register_async_service T s)"
  have rest: "\<forall>U \<in> set Ts. m_services ?s1 (service_full_name U) = None"
  proof
    fix U assume U: "U \<in> set Ts"
    then have "service_full_name U \<in> service_full_name ` set Ts" by (rule imageI)
    moreover have "service_full_name T \<notin> service_full_name ` set Ts"
      using Cons.prems(1) by simp
    ultimately have "service_full_name U \<noteq> service_full_name T" by metis
    moreover have "m_services s (service_full_name U) = None" using Cons.prems(2) U by simp
    ultimately show "m_services ?s1 (service_full_name U) = None"
      by (simp add: register_async_service_new [OF absent])
  qed
  have "fst (reg_run (map RegisterService Ts) ?s1) = replicate (length Ts) True"
    using Cons.prems(1) rest by (intro Cons.IH) simp_all
  then show ?case
    by (simp add: register_async_service_new [OF absent] split_beta)
qed

lemma prefix_nth: "prefix xs ys \<Longrightarrow> i < length xs \<Longrightarrow> i < length ys \<and> ys ! i = xs ! i"
  by (auto simp add: prefix_def nth_append)

lemma reg_step_prefix:
  "prefix (m_rpc_registry s) (m_rpc_registry (snd (reg_step c s)))
   \<and> prefix (info_heap s) (info_heap (snd (reg_step c s)))"
proof (cases c)
  case (RegisterService T)
  then show ?thesis
    by (cases "m_services s (service_full_name T)")
       (simp_all add: register_async_service_new register_async_service_dup)
next
  case (RegisterRpc T Rq Rs st name a b d)
  then show ?thesis
    by (cases "m_services s (service_full_name T)")
       (simp_all add: register_rpc_fails register_rpc_succeeds register_rpc_locked_eq
          mtx_lock_def mtx_unlock_def DEBUG_ASSERT_EQ_def)
qed

lemma reg_run_prefix:
  "prefix (m_rpc_registry s) (m_rpc_registry (snd (reg_run cs s)))
   \<and> prefix (info_heap s) (info_heap (snd (reg_run cs s)))"
proof (induction cs arbitrary: s)
  case Nil
  then show ?case by simp
next
  case (Cons c cs)
  let ?s1 = "snd (reg_step c s)"
  have run: "snd (reg_run (c # cs) s) = snd (reg_run cs ?s1)"
    by (simp add: split_beta)
  from reg_step_prefix [of s c] Cons.IH [of ?s1]
  show ?case unfolding run by (meson prefix_order.trans)
qed

text \<open>
  Claim C1. A call of \<open>register_rpc\<close> that returns true on a running server with
  \<open>thread_count\<close> completion queues takes the registry mutex, and while the mutex is held it
  makes exactly these steps, in this order: one append to the registry, then one call object
  armed per queue, queue after queue; every step is noted with the mutex held, and the mutex
  is free when the call returns. It appends exactly one record to the registry and creates exactly
  \<open>thread_count\<close> call objects, at addresses that held no object before, the \<open>i\<close>-th one for
  the new record and queue \<open>i\<close>, in state \<open>AWAITING_CALL\<close> and posted at the end of queue
  \<open>i\<close>. The call objects that existed keep their addresses and contents, and nothing is logged.
\<close>

theorem register_rpc_arms_every_queue:
  assumes "m_state s = RUNNING" and "length (m_cqs s) = thread_count"
    and "fst (register_rpc T Rq Rs st name a b d s) = True"
  shows "(let s' = snd (register_rpc T Rq Rs st name a b d s);
              p = length (info_heap s); h = length (call_heap s)
          in (\<exists>svc. m_services s (service_full_name T) = Some svc \<and>
                s' = mtx_unlock (register_rpc_locked T Rq Rs svc name a b d (mtx_lock s)))
           \<and> m_rpc_registry s' = m_rpc_registry s @ [p]
           \<and> (\<exists>info. info_heap s' = info_heap s @ [info] \<and> m_rpc_name info = name
                 \<and> info_service info = T)
           \<and> length (m_cqs s') = thread_count
           \<and> length (call_heap s') = h + thread_count
           \<and> take h (call_heap s') = call_heap s
           \<and> (\<forall>i < thread_count.
                 m_cqs s' ! i = m_cqs s ! i @ [h + i] \<and> call_at s (h + i) = None
               \<and> (\<exists>c. call_at s' (h + i) = Some c \<and> m_rpc_info c = p \<and> m_queue_idx c = i
                      \<and> call_state c = AWAITING_CALL))
           \<and> registry_events s' = registry_events s @
                 RegistryAppend p True # map (\<lambda>i. CallArmed i (h + i) True) [0..<thread_count]
           \<and> assert_log s' = assert_log s \<and> m_rpc_registry_mtx s' = False)"
proof -
  from assms(3) obtain svc where svc: "m_services s (service_full_name T) = Some svc"
    by (auto simp add: register_rpc_true_iff)
  have dbg: "DEBUG_ASSERT_EQ RUNNING (m_state s) ''register service in non-INITED state'' s = s"
    using assms(1) by (simp add: DEBUG_ASSERT_EQ_def)
  have s': "snd (register_rpc T Rq Rs st name a b d s)
            = mtx_unlock (register_rpc_locked T Rq Rs svc name a b d (mtx_lock s))"
    by (simp add: register_rpc_succeeds [OF svc] dbg)
  have slots: "\<forall>i < thread_count.
      m_cqs (mtx_unlock (register_rpc_locked T Rq Rs svc name a b d (mtx_lock s))) ! i
        = m_cqs s ! i @ [length (call_heap s) + i]
    \<and> call_at s (length (call_heap s) + i) = None
    \<and> (\<exists>c. call_at (mtx_unlock (register_rpc_locked T Rq Rs svc name a b d (mtx_lock s)))
               (length (call_heap s) + i) = Some c
           \<and> m_rpc_info c = length (info_heap s) \<and> m_queue_idx c = i
           \<and> call_state c = AWAITING_CALL)"
    using assms(2)
    by (simp add: register_rpc_locked_eq mtx_lock_def mtx_unlock_def call_at_def armed_def nth_append)
  show ?thesis
    unfolding Let_def s'
    using svc slots assms(2)
    by (simp add: register_rpc_locked_eq mtx_lock_def mtx_unlock_def)
qed

theorem register_rpc_arms_every_queue_witness:
  "m_state running_server = RUNNING \<and> length (m_cqs running_server) = 2
   \<and> fst (register_rpc \<lparr>service_full_name = 100\<rparr> 1 2 False ''Get'' 7 8 None running_server) = True
   \<and> m_rpc_registry
        (snd (register_rpc \<lparr>service_full_name = 100\<rparr> 1 2 False ''Get'' 7 8 None running_server))
       = [0]
   \<and> length (call_heap
        (snd (register_rpc \<lparr>service_full_name = 100\<rparr> 1 2 False ''Get'' 7 8 None running_server)))
       = 2
   \<and> m_cqs (snd (register_rpc \<lparr>service_full_name = 100\<rparr> 1 2 False ''Get'' 7 8 None running_server))
        ! 1 = [1]
   \<and> registry_events
        (snd (register_rpc \<lparr>service_full_name = 100\<rparr> 1 2 False ''Get'' 7 8 None running_server))
       = [RegistryAppend 0 True, CallArmed 0 0 True, CallArmed 1 1 True]"
proof -
  let ?A = "\<lparr>service_full_name = 100\<rparr>"
  let ?X = "register_rpc ?A 1 2 False ''Get'' 7 8 None running_server"
  have h1: "m_state running_server = RUNNING" by (simp add: running_server_simps)
  have h2: "length (m_cqs running_server) = 2" by (simp add: running_server_simps)
  have h3: "fst ?X = True" by (simp add: register_rpc_true_iff running_server_simps)
  note t = register_rpc_arms_every_queue [OF h1 h2 h3, unfolded Let_def]
  from t have "m_rpc_registry (snd ?X)
      = m_rpc_registry running_server @ [length (info_heap running_server)]" by blast
  then have a: "m_rpc_registry (snd ?X) = [0]"
    by (simp only: running_server_simps list.size append_Nil)
  from t have "length (call_heap (snd ?X)) = length (call_heap running_server) + 2" by blast
  then have b: "length (call_heap (snd ?X)) = 2"
    by (simp only: running_server_simps list.size add_0)
  from t have "\<forall>i<2. m_cqs (snd ?X) ! i = m_cqs running_server ! i @ [length (call_heap running_server) + i]"
    by blast
  then have "m_cqs (snd ?X) ! 1 = m_cqs running_server ! 1 @ [length (call_heap running_server) + 1]"
    by simp
  then have c: "m_cqs (snd ?X) ! 1 = [1]" by (simp only: running_server_simps) simp
  from t have "registry_events (snd ?X) = registry_events running_server @
      RegistryAppend (length (info_heap running_server)) True #
      map (\<lambda>i. CallArmed i (length (call_heap running_server) + i) True) [0..<2]" by blast
  then have d: "registry_events (snd ?X)
      = [RegistryAppend 0 True, CallArmed 0 0 True, CallArmed 1 1 True]"
    by (simp add: running_server_simps upt_rec)
  show ?thesis using h1 h2 h3 a b c d by blast
qed

text \<open>
  Claim C2 fails on the code: the template parameter \<open>streaming\<close> is not used. A registration
  with \<open>streaming = true\<close> returns what the same registration with \<open>streaming = false\<close> returns; on
  the running example server the record and both call objects it creates have the unary shape.
\<close>

theorem register_rpc_ignores_streaming:
  "register_rpc T Rq Rs True name a b d s = register_rpc T Rq Rs False name a b d s
   \<and> fst (register_rpc \<lparr>service_full_name = 100\<rparr> 1 2 True ''Watch'' 7 8 None running_server) = True
   \<and> map info_streaming (info_heap
        (snd (register_rpc \<lparr>service_full_name = 100\<rparr> 1 2 True ''Watch'' 7 8 None running_server)))
       = [False]
   \<and> map (map_option call_streaming) (call_heap
        (snd (register_rpc \<lparr>service_full_name = 100\<rparr> 1 2 True ''Watch'' 7 8 None running_server)))
       = [Some False, Some False]"
proof -
  have g: "register_rpc T Rq Rs True name a b d s = register_rpc T Rq Rs False name a b d s"
    by (simp add: register_rpc_def)
  have svc: "m_services running_server (service_full_name \<lparr>service_full_name = 100\<rparr>) = Some 0"
    by (simp add: running_server_simps)
  have two: "[0..<2] = [0, 1]" by (simp add: upt_rec)
  show ?thesis
    using g
    by (simp add: register_rpc_succeeds [OF svc] register_rpc_locked_eq mtx_lock_def
        mtx_unlock_def DEBUG_ASSERT_EQ_def running_server_simps armed_def two)
qed

text \<open>
  Claim C3. When the name returned by \<open>service_full_name\<close> is a key of the service map,
  \<open>register_async_service\<close> returns false, logs the assertion failure and changes nothing but
  the log. A sequence of registrations whose names are pairwise distinct, none of them in the
  map at the start, returns true at every call; this holds for names distinct as addresses, and
  so for names distinct as strings.
\<close>

theorem register_async_service_rejects_duplicates:
  "(m_services s (service_full_name T) \<noteq> None \<longrightarrow>
      fst (register_async_service T s) = False
    \<and> LogmsgAssert ''Duplicate register async service''
         \<in> set (assert_log (snd (register_async_service T s)))
    \<and> snd (register_async_service T s)
         = s\<lparr>assert_log := assert_log (snd (register_async_service T s))\<rparr>
    \<and> (m_state s = INITED \<longrightarrow>
          assert_log (snd (register_async_service T s))
            = assert_log s @ [LogmsgAssert ''Duplicate register async service'']))
   \<and> (distinct (map service_full_name Ts)
        \<and> (\<forall>U \<in> set Ts. m_services s (service_full_name U) = None) \<longrightarrow>
      fst (reg_run (map RegisterService Ts) s) = replicate (length Ts) True)
   \<and> (distinct (map (\<lambda>U. mem (service_full_name U)) Ts)
        \<and> (\<forall>U \<in> set Ts. m_services s (service_full_name U) = None) \<longrightarrow>
      fst (reg_run (map RegisterService Ts) s) = replicate (length Ts) True)"
proof -
  have dup: "m_services s (service_full_name T) \<noteq> None \<longrightarrow>
      fst (register_async_service T s) = False
    \<and> LogmsgAssert ''Duplicate register async service''
         \<in> set (assert_log (snd (register_async_service T s)))
    \<and> snd (register_async_service T s)
         = s\<lparr>assert_log := assert_log (snd (register_async_service T s))\<rparr>
    \<and> (m_state s = INITED \<longrightarrow>
          assert_log (snd (register_async_service T s))
            = assert_log s @ [LogmsgAssert ''Duplicate register async service''])"
    by (simp add: register_async_service_dup)
  have content: "distinct (map service_full_name Ts)"
    if "distinct (map (\<lambda>U. mem (service_full_name U)) Ts)"
  proof -
    have "map (\<lambda>U. mem (service_full_name U)) Ts = map mem (map service_full_name Ts)"
      by simp
    with that show ?thesis by (simp only: distinct_map)
  qed
  show ?thesis using dup content reg_run_services [of Ts s] by blast
qed

theorem register_async_service_rejects_duplicates_witness:
  "m_services (snd (register_async_service \<lparr>service_full_name = 100\<rparr> inited_server)) 100 \<noteq> None
   \<and> fst (register_async_service \<lparr>service_full_name = 100\<rparr>
            (snd (register_async_service \<lparr>service_full_name = 100\<rparr> inited_server))) = False
   \<and> distinct (map service_full_name [\<lparr>service_full_name = 100\<rparr>, \<lparr>service_full_name = 200\<rparr>])
   \<and> m_services inited_server (service_full_name \<lparr>service_full_name = 100\<rparr>) = None
   \<and> m_services inited_server (service_full_name \<lparr>service_full_name = 200\<rparr>) = None
   \<and> distinct (map (\<lambda>U. (\<lambda>p::ptr. if p = 100 then ''pkg.Echo'' else ''pkg.Store'')
                          (service_full_name U))
        [\<lparr>service_full_name = 100\<rparr>, \<lparr>service_full_name = 200\<rparr>])
   \<and> fst (reg_run (map RegisterService [\<lparr>service_full_name = 100\<rparr>, \<lparr>service_full_name = 200\<rparr>])
            inited_server) = [True, True]"
proof -
  let ?A = "\<lparr>service_full_name = 100\<rparr>" and ?B = "\<lparr>service_full_name = 200\<rparr>"
  let ?mem = "\<lambda>p::ptr. if p = 100 then ''pkg.Echo'' else ''pkg.Store''"
  let ?s1 = "snd (register_async_service ?A inited_server)"
  have h4: "distinct (map (\<lambda>U. ?mem (service_full_name U)) [?A, ?B])" by simp
  have fresh: "\<forall>U \<in> set [?A, ?B]. m_services inited_server (service_full_name U) = None"
    by (simp add: inited_server_def GrpcServer_members_def)
  have h1: "m_services ?s1 (service_full_name ?A) \<noteq> None"
    by (simp add: register_async_service_new inited_server_def GrpcServer_members_def)
  have h2: "distinct (map service_full_name [?A, ?B])" by simp
  have h3: "m_state ?s1 = INITED"
    by (simp add: register_async_service_new inited_server_def GrpcServer_members_def)
  from register_async_service_rejects_duplicates [of ?s1 ?A "[]" "\<lambda>_. []"] h1 h3
  have r1: "fst (register_async_service ?A ?s1) = False" by blast
  from register_async_service_rejects_duplicates [of inited_server ?A "[?A, ?B]" ?mem] h2 fresh
  have r2: "fst (reg_run (map RegisterService [?A, ?B]) inited_server)
            = replicate (length [?A, ?B]) True"
    by blast
  from register_async_service_rejects_duplicates [of inited_server ?A "[?A, ?B]" ?mem] h4 fresh
  have r2': "fst (reg_run (map RegisterService [?A, ?B]) inited_server)
            = replicate (length [?A, ?B]) True"
    by blast
  have "replicate (length [?A, ?B]) True = [True, True]" by simp
  with r2 have r3: "fst (reg_run (map RegisterService [?A, ?B]) inited_server) = [True, True]"
    by (simp only:)
  have h1': "m_services ?s1 100 \<noteq> None" using h1 by simp
  have fa: "m_services inited_server (service_full_name ?A) = None"
    and fb: "m_services inited_server (service_full_name ?B) = None"
    using fresh by simp_all
  show ?thesis using h1' r1 h2 fa fb h4 r3 by blast
qed

text \<open>
  Claim C4. When the service of \<open>register_rpc\<close> is not in the service map, the call returns
  false, logs the assertion failure and changes nothing but the log: no record is appended and
  no call object is created or posted.
\<close>

theorem register_rpc_requires_service:
  assumes "m_services s (service_full_name T) = None"
  shows "fst (register_rpc T Rq Rs st name a b d s) = False
    \<and> LogmsgAssert ''RPC registration attempted before service is registered''
         \<in> set (assert_log (snd (register_rpc T Rq Rs st name a b d s)))
    \<and> snd (register_rpc T Rq Rs st name a b d s)
         = s\<lparr>assert_log := assert_log (snd (register_rpc T Rq Rs st name a b d s))\<rparr>
    \<and> m_rpc_registry (snd (register_rpc T Rq Rs st name a b d s)) = m_rpc_registry s
    \<and> info_heap (snd (register_rpc T Rq Rs st name a b d s)) = info_heap s
    \<and> m_cqs (snd (register_rpc T Rq Rs st name a b d s)) = m_cqs s
    \<and> call_heap (snd (register_rpc T Rq Rs st name a b d s)) = call_heap s
    \<and> (m_state s = RUNNING \<longrightarrow>
          assert_log (snd (register_rpc T Rq Rs st name a b d s))
            = assert_log s
              @ [LogmsgAssert ''RPC registration attempted before service is registered''])"
  by (simp add: register_rpc_fails [OF assms])

theorem register_rpc_requires_service_witness:
  "m_services running_server (service_full_name \<lparr>service_full_name = 200\<rparr>) = None
   \<and> m_state running_server = RUNNING
   \<and> register_rpc \<lparr>service_full_name = 200\<rparr> 1 2 False ''Get'' 7 8 None running_server
       = (False, running_server\<lparr>assert_log :=
            [LogmsgAssert ''RPC registration attempted before service is registered'']\<rparr>)"
proof -
  let ?B = "\<lparr>service_full_name = 200\<rparr>"
  have h: "m_services running_server (service_full_name ?B) = None"
    by (simp add: running_server_def GrpcServer_members_def)
  have r: "m_state running_server = RUNNING"
    by (simp add: running_server_def GrpcServer_members_def)
  have l: "assert_log running_server = []"
    by (simp add: running_server_def GrpcServer_members_def)
  let ?X = "register_rpc ?B 1 2 False ''Get'' 7 8 None running_server"
  note t = register_rpc_requires_service [OF h, of 1 2 False "''Get''" 7 8 None]
  from t have f: "fst ?X = False" by blast
  from t r have e2: "assert_log (snd ?X) = assert_log running_server
       @ [LogmsgAssert ''RPC registration attempted before service is registered'']"
    by blast
  from t have "snd ?X = running_server\<lparr>assert_log := assert_log (snd ?X)\<rparr>" by blast
  also have "\<dots> = running_server\<lparr>assert_log :=
            [LogmsgAssert ''RPC registration attempted before service is registered'']\<rparr>"
    by (simp only: e2 l append_Nil)
  finally have "?X = (False, running_server\<lparr>assert_log :=
            [LogmsgAssert ''RPC registration attempted before service is registered'']\<rparr>)"
    using f by (simp add: prod_eq_iff)
  then show ?thesis using h r by blast
qed

text \<open>
  Claim C8. Whether \<open>register_async_service\<close> succeeds depends only on the address returned by
  \<open>service_full_name\<close>: registering one service type twice fails the second time, and two
  service types whose names are at different addresses both register, also when the
  characters stored at the two addresses are the same.
\<close>

theorem register_async_service_compares_pointers:
  "fst (register_async_service T s) = (m_services s (service_full_name T) = None)
   \<and> (m_services s (service_full_name T) = None \<longrightarrow>
        fst (reg_run [RegisterService T, RegisterService T] s) = [True, False])
   \<and> (service_full_name A \<noteq> service_full_name B
        \<and> mem (service_full_name A) = mem (service_full_name B)
        \<and> m_services s (service_full_name A) = None
        \<and> m_services s (service_full_name B) = None \<longrightarrow>
        fst (reg_run [RegisterService A, RegisterService B] s) = [True, True])"
proof -
  have one: "fst (register_async_service T s) = (m_services s (service_full_name T) = None)"
    by (cases "m_services s (service_full_name T)")
       (simp_all add: register_async_service_new register_async_service_dup)
  have twice: "fst (reg_run [RegisterService T, RegisterService T] s) = [True, False]"
    if absent: "m_services s (service_full_name T) = None"
  proof -
    let ?s1 = "snd (register_async_service T s)"
    have "m_services ?s1 (service_full_name T) \<noteq> None"
      by (simp add: register_async_service_new [OF absent])
    then have "fst (register_async_service T ?s1) = False"
      by (simp add: register_async_service_dup)
    moreover have "fst (register_async_service T s) = True"
      by (simp add: register_async_service_new [OF absent])
    ultimately show ?thesis by (simp add: split_beta)
  qed
  have both: "fst (reg_run [RegisterService A, RegisterService B] s) = [True, True]"
    if ne: "service_full_name A \<noteq> service_full_name B"
      and a: "m_services s (service_full_name A) = None"
      and b: "m_services s (service_full_name B) = None"
  proof -
    let ?s1 = "snd (register_async_service A s)"
    have "m_services ?s1 (service_full_name B) = None"
      using ne b by (simp add: register_async_service_new [OF a])
    then have "fst (register_async_service B ?s1) = True"
      by (simp add: register_async_service_new)
    moreover have "fst (register_async_service A s) = True"
      by (simp add: register_async_service_new [OF a])
    ultimately show ?thesis by (simp add: split_beta)
  qed
  show ?thesis using one twice both by blast
qed

theorem register_async_service_compares_pointers_witness:
  "m_services inited_server (service_full_name \<lparr>service_full_name = 100\<rparr>) = None
   \<and> fst (reg_run [RegisterService \<lparr>service_full_name = 100\<rparr>,
                    RegisterService \<lparr>service_full_name = 100\<rparr>] inited_server) = [True, False]
   \<and> service_full_name \<lparr>service_full_name = 100\<rparr> \<noteq> service_full_name \<lparr>service_full_name = 200\<rparr>
   \<and> (\<lambda>p. if p = 100 \<or> p = 200 then ''pkg.Echo'' else []) 100
       = (\<lambda>p. if p = (100::nat) \<or> p = 200 then ''pkg.Echo'' else []) 200
   \<and> m_services inited_server (service_full_name \<lparr>service_full_name = 200\<rparr>) = None
   \<and> fst (reg_run [RegisterService \<lparr>service_full_name = 100\<rparr>,
                    RegisterService \<lparr>service_full_name = 200\<rparr>] inited_server) = [True, True]"
proof -
  let ?A = "\<lparr>service_full_name = 100\<rparr>" and ?B = "\<lparr>service_full_name = 200\<rparr>"
  let ?mem = "\<lambda>p::ptr. if p = 100 \<or> p = 200 then ''pkg.Echo'' else []"
  have a: "m_services inited_server (service_full_name ?A) = None"
    and b: "m_services inited_server (service_full_name ?B) = None"
    by (simp_all add: inited_server_def GrpcServer_members_def)
  have ne: "service_full_name ?A \<noteq> service_full_name ?B" by simp
  have eq: "?mem (service_full_name ?A) = ?mem (service_full_name ?B)" by simp
  note t = register_async_service_compares_pointers [of ?A inited_server ?A ?B ?mem]
  from t a have r1: "fst (reg_run [RegisterService ?A, RegisterService ?A] inited_server)
      = [True, False]" by blast
  from t a b ne eq have r2: "fst (reg_run [RegisterService ?A, RegisterService ?B] inited_server)
      = [True, True]" by blast
  show ?thesis using a b ne r1 r2 by simp
qed

text \<open>
  Claim C5. A successful \<open>register_rpc\<close> appends one pointer to the registry; the record it
  points to carries as \<open>m_rpc_idx\<close> the size the registry had before the append, which is the
  position of the pointer. Registration calls only append to the registry and to the table of
  records: after any further sequence of registration calls the registry still holds the same
  pointer at that index and the pointer still leads to the same record.
\<close>

theorem registry_is_append_only:
  "(fst (register_rpc T Rq Rs st name a b d s) = True \<longrightarrow>
      (let s' = snd (register_rpc T Rq Rs st name a b d s); idx = length (m_rpc_registry s)
       in m_rpc_registry s' = m_rpc_registry s @ [length (info_heap s)]
        \<and> (\<exists>info. info_at s' (m_rpc_registry s' ! idx) = Some info
              \<and> m_rpc_idx info = idx \<and> m_rpc_name info = name)
        \<and> (\<forall>later. let s'' = snd (reg_run later s')
              in idx < length (m_rpc_registry s'')
               \<and> m_rpc_registry s'' ! idx = m_rpc_registry s' ! idx
               \<and> info_at s'' (m_rpc_registry s'' ! idx) = info_at s' (m_rpc_registry s' ! idx))))
   \<and> prefix (m_rpc_registry s) (m_rpc_registry (snd (reg_run calls s)))
   \<and> prefix (info_heap s) (info_heap (snd (reg_run calls s)))"
proof -
  have first: "(let s' = snd (register_rpc T Rq Rs st name a b d s); idx = length (m_rpc_registry s)
       in m_rpc_registry s' = m_rpc_registry s @ [length (info_heap s)]
        \<and> (\<exists>info. info_at s' (m_rpc_registry s' ! idx) = Some info
              \<and> m_rpc_idx info = idx \<and> m_rpc_name info = name)
        \<and> (\<forall>later. let s'' = snd (reg_run later s')
              in idx < length (m_rpc_registry s'')
               \<and> m_rpc_registry s'' ! idx = m_rpc_registry s' ! idx
               \<and> info_at s'' (m_rpc_registry s'' ! idx) = info_at s' (m_rpc_registry s' ! idx)))"
    if ok: "fst (register_rpc T Rq Rs st name a b d s) = True"
  proof -
    define s' where "s' = snd (register_rpc T Rq Rs st name a b d s)"
    define idx where "idx = length (m_rpc_registry s)"
    from ok obtain svc where svc: "m_services s (service_full_name T) = Some svc"
      by (auto simp add: register_rpc_true_iff)
    have reg: "m_rpc_registry s' = m_rpc_registry s @ [length (info_heap s)]"
      and heap: "info_heap s' = info_heap s @
          [\<lparr>info_service = T, info_req = Rq, info_resp = Rs, info_streaming = False,
            m_svc = svc, m_req_call_cb = a, m_handler_cb = b, m_comp_cb = d,
            m_rpc_idx = length (m_rpc_registry s), m_rpc_name = name\<rparr>]"
      by (simp_all add: s'_def register_rpc_succeeds [OF svc] register_rpc_locked_eq
          mtx_lock_def mtx_unlock_def DEBUG_ASSERT_EQ_def)
    have at: "m_rpc_registry s' ! idx = length (info_heap s)"
      by (simp add: reg idx_def)
    have rec: "\<exists>info. info_at s' (m_rpc_registry s' ! idx) = Some info
              \<and> m_rpc_idx info = idx \<and> m_rpc_name info = name"
      by (simp only: at) (simp add: info_at_def heap idx_def)
    have stable: "idx < length (m_rpc_registry s'')
               \<and> m_rpc_registry s'' ! idx = m_rpc_registry s' ! idx
               \<and> info_at s'' (m_rpc_registry s'' ! idx) = info_at s' (m_rpc_registry s' ! idx)"
      if s'': "s'' = snd (reg_run later s')" for later s''
    proof -
      from reg_run_prefix [of s' later]
      have p1: "prefix (m_rpc_registry s') (m_rpc_registry s'')"
        and p2: "prefix (info_heap s') (info_heap s'')" by (simp_all add: s'')
      have i: "idx < length (m_rpc_registry s')" by (simp add: reg idx_def)
      from prefix_nth [OF p1 i]
      have a1: "idx < length (m_rpc_registry s'')"
        and a2: "m_rpc_registry s'' ! idx = m_rpc_registry s' ! idx" by simp_all
      have j: "length (info_heap s) < length (info_heap s')" by (simp add: heap)
      from prefix_nth [OF p2 j]
      have "info_at s'' (length (info_heap s)) = info_at s' (length (info_heap s))"
        using j by (simp add: info_at_def)
      then show ?thesis using a1 a2 at by simp
    qed
    show ?thesis
      unfolding Let_def s'_def [symmetric] idx_def [symmetric]
      using reg rec stable by blast
  qed
  show ?thesis using first reg_run_prefix [of s calls] by blast
qed

theorem registry_is_append_only_witness:
  "fst (register_rpc \<lparr>service_full_name = 100\<rparr> 1 2 False ''Get'' 7 8 None running_server) = True
   \<and> m_rpc_registry (snd (reg_run [RegisterRpc \<lparr>service_full_name = 100\<rparr> 1 2 False ''Put'' 7 8 None]
        (snd (register_rpc \<lparr>service_full_name = 100\<rparr> 1 2 False ''Get'' 7 8 None running_server))))
       ! 0 = 0
   \<and> prefix (m_rpc_registry running_server)
        (m_rpc_registry (snd (reg_run [RegisterRpc \<lparr>service_full_name = 100\<rparr> 1 2 False ''Put'' 7 8 None]
           running_server)))"
proof -
  let ?A = "\<lparr>service_full_name = 100\<rparr>"
  let ?X = "register_rpc ?A 1 2 False ''Get'' 7 8 None running_server"
  let ?later = "[RegisterRpc ?A 1 2 False ''Put'' 7 8 None]"
  have ok: "fst ?X = True" by (simp add: register_rpc_true_iff running_server_simps)
  note t = registry_is_append_only [of ?A 1 2 False "''Get''" 7 8 None running_server ?later,
      unfolded Let_def]
  from t ok have "m_rpc_registry (snd (reg_run ?later (snd ?X))) ! length (m_rpc_registry running_server)
      = m_rpc_registry (snd ?X) ! length (m_rpc_registry running_server)"
    and "m_rpc_registry (snd ?X)
      = m_rpc_registry running_server @ [length (info_heap running_server)]"
    by blast+
  then have r: "m_rpc_registry (snd (reg_run ?later (snd ?X))) ! 0 = 0"
    by (simp add: running_server_simps)
  from t have p: "prefix (m_rpc_registry running_server)
        (m_rpc_registry (snd (reg_run ?later running_server)))" by blast
  show ?thesis using ok r p by blast
qed

section \<open>Properties of the lifecycle\<close>

lemma reg_step_m_state: "m_state (snd (reg_step c s)) = m_state s"
proof (cases c)
  case (RegisterService T)
  then show ?thesis
    by (cases "m_services s (service_full_name T)")
       (simp_all add: register_async_service_new register_async_service_dup)
next
  case (RegisterRpc T Rq Rs st name a b d)
  then show ?thesis
    by (cases "m_services s (service_full_name T)")
       (simp_all add: register_rpc_fails register_rpc_succeeds register_rpc_locked_eq
          mtx_lock_def mtx_unlock_def DEBUG_ASSERT_EQ_def)
qed

lemma lifecycle_step_next:
  "lifecycle_step x s = Some s' \<Longrightarrow>
   m_state s' = m_state s \<or> next_state (m_state s) = Some (m_state s')"
proof (cases x)
  case (Construct n ok)
  assume "lifecycle_step x s = Some s'"
  with Construct show ?thesis by (auto simp add: GrpcServer_construct_def split: if_splits)
next
  case Run
  assume "lifecycle_step x s = Some s'"
  with Run show ?thesis by (auto simp add: run_def split: if_splits)
next
  case Shutdown
  assume "lifecycle_step x s = Some s'"
  with Shutdown show ?thesis by (auto simp add: shutdown_begin_def split: if_splits)
next
  case ThreadsJoined
  assume "lifecycle_step x s = Some s'"
  with ThreadsJoined show ?thesis by (auto simp add: join_threads_def split: if_splits)
next
  case (Register c)
  assume "lifecycle_step x s = Some s'"
  with Register show ?thesis by (auto simp add: reg_step_m_state)
qed

lemma next_state_order: "next_state a = Some b \<Longrightarrow> state_order b = Suc (state_order a)"
  by (cases a) auto

lemma lifecycle_step_order:
  "lifecycle_step x s = Some s' \<Longrightarrow> state_order (m_state s) \<le> state_order (m_state s')"
  using lifecycle_step_next [of x s s'] next_state_order [of "m_state s" "m_state s'"] by auto

lemma lifecycle_run_order:
  "lifecycle_run xs s = Some s' \<Longrightarrow> state_order (m_state s) \<le> state_order (m_state s')"
proof (induction xs arbitrary: s)
  case Nil
  then show ?case by simp
next
  case (Cons x xs)
  then obtain s1 where s1: "lifecycle_step x s = Some s1" and rest: "lifecycle_run xs s1 = Some s'"
    by (auto split: option.splits)
  from lifecycle_step_order [OF s1] Cons.IH [OF rest] show ?case by simp
qed

text \<open>
  Claim C6. Every lifecycle operation that is valid in the current state, and every registration
  call, either leaves \<open>m_state\<close> as it is or moves it to the one state that follows it in
  \<open>VOID\<close>, \<open>INITED\<close>, \<open>RUNNING\<close>, \<open>SHUTTING_DOWN\<close>, \<open>TERMINATED\<close>; over a sequence of
  operations the state never goes back. A call of \<open>shutdown\<close> on a running server passes
  through \<open>SHUTTING_DOWN\<close> before it reaches \<open>TERMINATED\<close>, and does nothing on a server
  that is shutting down or terminated.
\<close>

theorem server_state_only_advances:
  "(lifecycle_step x s = Some s' \<longrightarrow>
      m_state s' = m_state s \<or> next_state (m_state s) = Some (m_state s'))
   \<and> (lifecycle_run xs s = Some s'' \<longrightarrow>
      state_order (m_state s) \<le> state_order (m_state s''))
   \<and> (shutdown s = Some s' \<longrightarrow>
      (m_state s = RUNNING \<and> m_state s' = TERMINATED
         \<and> (\<exists>s1. shutdown_begin s = Some s1 \<and> m_state s1 = SHUTTING_DOWN
                \<and> join_threads s1 = Some s'))
      \<or> ((m_state s = SHUTTING_DOWN \<or> m_state s = TERMINATED) \<and> s' = s))"
proof -
  have sd: "shutdown s = Some s' \<longrightarrow>
      (m_state s = RUNNING \<and> m_state s' = TERMINATED
         \<and> (\<exists>s1. shutdown_begin s = Some s1 \<and> m_state s1 = SHUTTING_DOWN
                \<and> join_threads s1 = Some s'))
      \<or> ((m_state s = SHUTTING_DOWN \<or> m_state s = TERMINATED) \<and> s' = s)"
    by (auto simp add: shutdown_def shutdown_begin_def join_threads_def
        split: if_splits option.splits)
  show ?thesis
    using lifecycle_step_next [of x s s'] lifecycle_run_order [of xs s s''] sd by blast
qed

theorem server_state_only_advances_witness:
  "lifecycle_step Run inited_server = Some (inited_server\<lparr>m_state := RUNNING, m_threads := [0, 1]\<rparr>)
   \<and> next_state (m_state inited_server) = Some RUNNING
   \<and> map_option m_state
        (lifecycle_run [Construct 2 True, Register (RegisterService \<lparr>service_full_name = 100\<rparr>),
           Run, Register (RegisterRpc \<lparr>service_full_name = 100\<rparr> 1 2 False ''Get'' 7 8 None),
           Shutdown, ThreadsJoined] GrpcServer_members) = Some TERMINATED
   \<and> state_order (m_state GrpcServer_members) \<le> state_order TERMINATED
   \<and> m_state running_server = RUNNING
   \<and> map_option m_state (shutdown running_server) = Some TERMINATED"
proof -
  let ?ops = "[Construct 2 True, Register (RegisterService \<lparr>service_full_name = 100\<rparr>),
           Run, Register (RegisterRpc \<lparr>service_full_name = 100\<rparr> 1 2 False ''Get'' 7 8 None),
           Shutdown, ThreadsJoined]"
  let ?r = "inited_server\<lparr>m_state := RUNNING, m_threads := [0, 1]\<rparr>"
  have two: "[0..<2] = [0, 1]" by (simp add: upt_rec)
  have a: "lifecycle_step Run inited_server = Some ?r"
    by (simp add: run_def inited_server_def GrpcServer_members_def two)
  have b: "map_option m_state (lifecycle_run ?ops GrpcServer_members) = Some TERMINATED"
    by code_simp
  have c: "map_option m_state (shutdown running_server) = Some TERMINATED"
    by code_simp
  have d: "m_state running_server = RUNNING" by (simp add: running_server_simps)
  from b obtain t where t: "lifecycle_run ?ops GrpcServer_members = Some t"
    and tt: "m_state t = TERMINATED" by auto
  from c obtain u where u: "shutdown running_server = Some u" by auto
  from server_state_only_advances [of Run inited_server ?r "[]" inited_server] a
  have "m_state ?r = m_state inited_server \<or> next_state (m_state inited_server) = Some (m_state ?r)"
    by blast
  then have n: "next_state (m_state inited_server) = Some RUNNING"
    by (simp add: inited_server_def GrpcServer_members_def)
  from server_state_only_advances [of Run GrpcServer_members t ?ops t] t
  have "state_order (m_state GrpcServer_members) \<le> state_order (m_state t)" by blast
  then have o: "state_order (m_state GrpcServer_members) \<le> state_order TERMINATED"
    by (simp only: tt)
  from server_state_only_advances [of Run running_server u "[]" running_server] u d
  have "m_state u = TERMINATED" by auto
  show ?thesis using a n b o d c by blast
qed

section \<open>Properties of the call lifecycle\<close>



lemma set_call_state_other [simp]:
  "m_cqs (set_call_state tag st s) = m_cqs s"
  "handler_runs (set_call_state tag st s) = handler_runs s"
  "length (call_heap (set_call_state tag st s)) = length (call_heap s)"
  by (cases "call_at s tag"; simp add: set_call_state_def)+


lemma make_other [simp]:
  "fst (RpcData_make st info i s) = length (call_heap s)"
  "m_cqs (snd (RpcData_make st info i s)) = m_cqs s"
  "handler_runs (snd (RpcData_make st info i s)) = handler_runs s"
  by (simp_all add: RpcData_make_def)


lemma destroy_other [simp]:
  "m_cqs (destroy_call tag s) = m_cqs s"
  "handler_runs (destroy_call tag s) = handler_runs s"
  by (simp_all add: destroy_call_def)

lemma cq_post_other [simp]:
  "call_at (cq_post q tag s) p = call_at s p"
  "handler_runs (cq_post q tag s) = handler_runs s"
  "length (m_cqs (cq_post q tag s)) = length (m_cqs s)"
  by (simp_all add: cq_post_def call_at_def)


lemma cq_next_other [simp]:
  "call_at (cq_next q tag s) p = call_at s p"
  "handler_runs (cq_next q tag s) = handler_runs s"
  "length (m_cqs (cq_next q tag s)) = length (m_cqs s)"
  by (simp_all add: cq_next_def call_at_def)

lemma invoke_completion_other [simp]:
  "call_at (invoke_completion info ok s) p = call_at s p"
  "handler_runs (invoke_completion info ok s) = handler_runs s"
  "m_cqs (invoke_completion info ok s) = m_cqs s"
  by (simp_all add: invoke_completion_def call_at_def split: option.splits)

lemma invoke_handler_other [simp]:
  "call_at (invoke_handler tag s) p = call_at s p"
  "m_cqs (invoke_handler tag s) = m_cqs s"
  by (simp_all add: invoke_handler_def call_at_def split: option.splits)

lemma enqueue_other [simp]:
  "handler_runs (enqueue_call_request tag q s) = handler_runs s"
  "length (m_cqs (enqueue_call_request tag q s)) = length (m_cqs s)"
  by (simp_all add: enqueue_call_request_def)





lemma handler_entry_other [simp]:
  "length (m_cqs (handler_entry tag c s)) = length (m_cqs s)"
  "handler_runs (handler_entry tag c s) = handler_runs s"
  by (simp_all add: handler_entry_def)















lemma slots_wf_iff:
  "slots_wf s = (\<forall>q < length (m_cqs s). \<forall>tag \<in> set (m_cqs s ! q).
       tag < length (call_heap s) \<and> (\<forall>c. call_at s tag = Some c \<longrightarrow> m_queue_idx c = q))"
proof -
  have "\<And>q tag. (tag < length (call_heap s) \<and>
           (case call_at s tag of None \<Rightarrow> True | Some c \<Rightarrow> m_queue_idx c = q))
        = (tag < length (call_heap s) \<and> (\<forall>c. call_at s tag = Some c \<longrightarrow> m_queue_idx c = q))"
    by (simp split: option.splits)
  then have "slots_wf s = (\<forall>q \<in> {0..<length (m_cqs s)}. \<forall>tag \<in> set (m_cqs s ! q).
       tag < length (call_heap s) \<and> (\<forall>c. call_at s tag = Some c \<longrightarrow> m_queue_idx c = q))"
    by (simp add: slots_wf_def list_all_iff)
  also have "\<dots> = (\<forall>q < length (m_cqs s). \<forall>tag \<in> set (m_cqs s ! q).
       tag < length (call_heap s) \<and> (\<forall>c. call_at s tag = Some c \<longrightarrow> m_queue_idx c = q))"
    by auto
  finally show ?thesis .
qed





lemma cqs_cq_next:
  "q' < length (m_cqs s) \<Longrightarrow>
   m_cqs (cq_next q tag s) ! q' = (if q' = q then remove1 tag (m_cqs s ! q') else m_cqs s ! q')"
  by (simp add: cq_next_def nth_list_update)



lemma cq_next_registry [simp]:
  "m_rpc_registry (cq_next q tag s) = m_rpc_registry s"
  "length (call_heap (cq_next q tag s)) = length (call_heap s)"
  by (simp_all add: cq_next_def)

lemma slots_wf_cq_next: "slots_wf s \<Longrightarrow> slots_wf (cq_next q tag s)"
  unfolding slots_wf_iff
  by (auto simp add: cqs_cq_next dest: notin_set_remove1)

lemma registry_unchanged [simp]:
  "m_rpc_registry (set_call_state tag st s) = m_rpc_registry s"
  "m_rpc_registry (destroy_call tag s) = m_rpc_registry s"
  "m_rpc_registry (invoke_completion info ok s) = m_rpc_registry s"
  "m_rpc_registry (invoke_handler tag s) = m_rpc_registry s"
  "m_rpc_registry (cq_post q tag s) = m_rpc_registry s"
  "m_rpc_registry (snd (RpcData_make b info i s)) = m_rpc_registry s"
  "m_rpc_registry (enqueue_call_request tag q s) = m_rpc_registry s"
  by (simp_all add: set_call_state_def destroy_call_def invoke_completion_def invoke_handler_def
      cq_post_def RpcData_make_def enqueue_call_request_def split: option.splits)

lemma heap_length [simp]:
  "length (call_heap (destroy_call tag s)) = length (call_heap s)"
  "length (call_heap (invoke_completion info ok s)) = length (call_heap s)"
  "length (call_heap (invoke_handler tag s)) = length (call_heap s)"
  "length (call_heap (cq_post q tag s)) = length (call_heap s)"
  "length (call_heap (snd (RpcData_make b info i s))) = Suc (length (call_heap s))"
  "length (call_heap (enqueue_call_request tag q s)) = length (call_heap s)"
  by (simp_all add: destroy_call_def invoke_completion_def invoke_handler_def
      cq_post_def RpcData_make_def enqueue_call_request_def split: option.splits)

lemma handler_entry_frame [simp]:
  "m_rpc_registry (handler_entry tag c s) = m_rpc_registry s"
  "length (call_heap (handler_entry tag c s)) = Suc (length (call_heap s))"
  by (simp_all add: handler_entry_def)




















end
